theory Spec2Isabelle
  imports Complex_Main "HOL-Library.Word" "HOL-Library.Multiset"
begin

unbundle bit_operations_syntax

section \<open>JavaScript values used by the scanning engine\<close>

text \<open>
  Strings are lists of ASCII characters. A JavaScript number is either \<open>NaN\<close> or an
  integer: the parsers only produce numbers through \<open>parseInt\<close>, integer arithmetic
  and the 32-bit operators. The model is exact as long as every value stays below
  \<open>2^53\<close> in magnitude, which holds whenever no run of decimal digits in the input
  text is longer than 15 characters. In \<open>parsePorts\<close> a longer run changes nothing: a
  number is only compared with 1, with 65535 and with the other bound, and these
  comparisons come out the same for the integer and for the double nearest to it. The
  progress percentage is the one place where the engine divides; its double-precision
  arithmetic is modelled on the rationals further down.
\<close>

datatype jsnum = NaN | Num int

datatype error =
    InvalidPortRange          \<comment> \<open>\<open>Error('Invalid port range')\<close>\<close>
  | NoValidPortsFound         \<comment> \<open>\<open>Error('No valid ports found')\<close>\<close>
  | InvalidPortNumber         \<comment> \<open>\<open>Error('Invalid port number')\<close>\<close>
  | InvalidCIDRPrefixLength   \<comment> \<open>\<open>Error('Invalid CIDR prefix length')\<close>\<close>
  | StartGreaterThanEnd       \<comment> \<open>\<open>Error('Invalid IP range: start IP is greater than end IP')\<close>\<close>
  | InvalidIPRangeFormat      \<comment> \<open>\<open>Error('Invalid IP range format')\<close>\<close>
  | TypeError                 \<comment> \<open>a method call on \<open>undefined\<close>\<close>


text \<open>Every comparison with \<open>NaN\<close> is false.\<close>

fun js_lt :: "jsnum \<Rightarrow> jsnum \<Rightarrow> bool" where
  "js_lt (Num a) (Num b) = (a < b)"
| "js_lt _ _ = False"

fun js_gt :: "jsnum \<Rightarrow> jsnum \<Rightarrow> bool" where
  "js_gt (Num a) (Num b) = (a > b)"
| "js_gt _ _ = False"



fun js_add :: "jsnum \<Rightarrow> jsnum \<Rightarrow> jsnum" where
  "js_add (Num a) (Num b) = Num (a + b)"
| "js_add _ _ = NaN"

fun js_sub :: "jsnum \<Rightarrow> jsnum \<Rightarrow> jsnum" where
  "js_sub (Num a) (Num b) = Num (a - b)"
| "js_sub _ _ = NaN"

subsection \<open>The 32-bit operators\<close>

text \<open>\<open>ToInt32\<close>: \<open>NaN\<close> becomes 0, an integer is reduced modulo \<open>2^32\<close>.\<close>

fun toInt32 :: "jsnum \<Rightarrow> 32 word" where
  "toInt32 NaN = 0"
| "toInt32 (Num i) = word_of_int i"

text \<open>The shift operators use only the low five bits of the shift count.\<close>

definition shiftCount :: "jsnum \<Rightarrow> nat" where
  "shiftCount b = unat (toInt32 b AND 31)"

definition js_shl :: "jsnum \<Rightarrow> jsnum \<Rightarrow> int" where
  "js_shl a b = sint (push_bit (shiftCount b) (toInt32 a))"

definition js_sar :: "jsnum \<Rightarrow> jsnum \<Rightarrow> int" where
  "js_sar a b = sint (signed_drop_bit (shiftCount b) (toInt32 a))"

definition js_shr :: "jsnum \<Rightarrow> jsnum \<Rightarrow> int" where
  "js_shr a b = uint (drop_bit (shiftCount b) (toInt32 a))"

definition js_and :: "jsnum \<Rightarrow> jsnum \<Rightarrow> int" where
  "js_and a b = sint (toInt32 a AND toInt32 b)"

definition js_or :: "jsnum \<Rightarrow> jsnum \<Rightarrow> int" where
  "js_or a b = sint (toInt32 a OR toInt32 b)"

subsection \<open>Strings\<close>

definition isSpace :: "char \<Rightarrow> bool" where
  "isSpace c = (c \<in> set [CHR '' '', CHR 0x09, CHR 0x0A, CHR 0x0B, CHR 0x0C, CHR 0x0D])"

definition trim :: "string \<Rightarrow> string" where
  "trim s = rev (dropWhile isSpace (rev (dropWhile isSpace s)))"



definition js_includes :: "string \<Rightarrow> char \<Rightarrow> bool" where
  "js_includes s c = (c \<in> set s)"

text \<open>\<open>s.split(c)\<close> for a one-character separator; the empty string gives \<open>['''']\<close>.\<close>

fun split_on :: "char \<Rightarrow> string \<Rightarrow> string list" where
  "split_on c [] = [[]]"
| "split_on c (x # xs) =
     (if x = c then [] # split_on c xs
      else (case split_on c xs of
              [] \<Rightarrow> [[x]]
            | y # ys \<Rightarrow> (x # y) # ys))"

fun join :: "char \<Rightarrow> string list \<Rightarrow> string" where
  "join c [] = []"
| "join c [x] = x"
| "join c (x # y # ys) = x @ c # join c (y # ys)"

definition isDigit :: "char \<Rightarrow> bool" where
  "isDigit c = (48 \<le> (of_char c :: nat) \<and> (of_char c :: nat) \<le> 57)"

definition digitVal :: "char \<Rightarrow> int" where
  "digitVal c = int (of_char c) - 48"

definition digitChar :: "nat \<Rightarrow> char" where
  "digitChar d = char_of (48 + d)"

text \<open>
  \<open>parseInt(s, 10)\<close>: skip leading white space, read an optional sign, then the longest
  run of decimal digits; \<open>NaN\<close> when that run is empty. Whatever follows is ignored.
\<close>

definition digitsValue :: "string \<Rightarrow> int" where
  "digitsValue ds = foldl (\<lambda>acc c. acc * 10 + digitVal c) 0 ds"

definition parseDigits :: "string \<Rightarrow> jsnum" where
  "parseDigits s =
     (let ds = takeWhile isDigit s in if ds = [] then NaN else Num (digitsValue ds))"

fun js_neg :: "jsnum \<Rightarrow> jsnum" where
  "js_neg NaN = NaN"
| "js_neg (Num i) = Num (- i)"

definition parseInt :: "string \<Rightarrow> jsnum" where
  "parseInt s =
     (case dropWhile isSpace s of
        [] \<Rightarrow> NaN
      | c # r \<Rightarrow>
          if c = CHR ''-'' then js_neg (parseDigits r)
          else if c = CHR ''+'' then parseDigits r
          else parseDigits (c # r))"

text \<open>\<open>Number.prototype.toString\<close> on an integer.\<close>

function natToString :: "nat \<Rightarrow> string" where
  "natToString n =
     (if n < 10 then [digitChar n] else natToString (n div 10) @ [digitChar (n mod 10)])"
  by pat_completeness auto
termination
  by (relation "measure id") auto

definition numToString :: "int \<Rightarrow> string" where
  "numToString i = (if i < 0 then CHR ''-'' # natToString (nat (- i)) else natToString (nat i))"

section \<open>PortScanner.parsePorts\<close>









section \<open>Address arithmetic: NetworkUtils and IPUtils\<close>

text \<open>
  \<open>ip.split('.').reduce((int, octet) => (int << 8) + parseInt(octet, 10), 0) >>> 0\<close>
\<close>

definition ipToInt :: "string \<Rightarrow> int" where
  "ipToInt ip =
     js_shr (foldl (\<lambda>acc octet. js_add (Num (js_shl acc (Num 8))) (parseInt octet))
                   (Num 0) (split_on CHR ''.'' ip))
            (Num 0)"

text \<open>
  \<open>[(int >>> 24), (int >> 16 & 255), (int >> 8 & 255), (int & 255)].join('.')\<close>
\<close>

definition intToIP :: "int \<Rightarrow> string" where
  "intToIP i =
     join CHR ''.''
       (map numToString
          [js_shr (Num i) (Num 24),
           js_and (Num (js_sar (Num i) (Num 16))) (Num 255),
           js_and (Num (js_sar (Num i) (Num 8))) (Num 255),
           js_and (Num i) (Num 255)])"

subsection \<open>The dotted-quad pattern of isValidIP\<close>

text \<open>
  A pattern is run as a backtracking matcher: applied to a text it returns the rest of the
  text after every way of matching a prefix.
\<close>

type_synonym matcher = "string \<Rightarrow> string list"

definition m_range :: "char \<Rightarrow> char \<Rightarrow> matcher" where
  "m_range lo hi s =
     (case s of
        [] \<Rightarrow> []
      | c # r \<Rightarrow>
          if (of_char lo :: nat) \<le> of_char c \<and> (of_char c :: nat) \<le> of_char hi then [r] else [])"

definition m_chr :: "char \<Rightarrow> matcher" where
  "m_chr c = m_range c c"

definition m_seq :: "matcher \<Rightarrow> matcher \<Rightarrow> matcher" where
  "m_seq p q s = concat (map q (p s))"

definition m_alt :: "matcher \<Rightarrow> matcher \<Rightarrow> matcher" where
  "m_alt p q s = p s @ q s"

definition m_opt :: "matcher \<Rightarrow> matcher" where
  "m_opt p s = p s @ [s]"

text \<open>\<open>(?:25[0-5]|2[0-4][0-9]|[01]?[0-9][0-9]?)\<close>\<close>

definition m_octet :: matcher where
  "m_octet =
     m_alt (m_seq (m_chr CHR ''2'') (m_seq (m_chr CHR ''5'') (m_range CHR ''0'' CHR ''5'')))
    (m_alt (m_seq (m_chr CHR ''2'') (m_seq (m_range CHR ''0'' CHR ''4'') (m_range CHR ''0'' CHR ''9'')))
           (m_seq (m_opt (m_range CHR ''0'' CHR ''1''))
                  (m_seq (m_range CHR ''0'' CHR ''9'') (m_opt (m_range CHR ''0'' CHR ''9'')))))"

definition m_octetDot :: matcher where
  "m_octetDot = m_seq m_octet (m_chr CHR ''.'')"

text \<open>\<open>^(?:octet\.){3}octet$\<close>: the whole text must be consumed.\<close>

definition isValidIP :: "string \<Rightarrow> bool" where
  "isValidIP ip = ([] \<in> set (m_seq m_octetDot (m_seq m_octetDot (m_seq m_octetDot m_octet)) ip))"

subsection \<open>NetworkUtils.parseIPRange and generateIPList\<close>

record NetworkRange =
  startIP :: string
  endIP :: string
  cidr :: string
  totalHosts :: int

definition parseIPRange :: "string \<Rightarrow> error + NetworkRange" where
  "parseIPRange text =
     (let input = trim text in
      if js_includes input CHR ''/'' then
        (case split_on CHR ''/'' input of
           network # prefixLength # _ \<Rightarrow>
             (let prefix = parseInt prefixLength in
              if js_lt prefix (Num 0) \<or> js_gt prefix (Num 32) then Inl InvalidCIDRPrefixLength
              else
                (let networkInt = ipToInt network;
                     mask = js_shl (Num 0xffffffff) (js_sub (Num 32) prefix);
                     startNum = js_and (Num networkInt) (Num mask);
                     endNum = js_or (Num startNum) (Num (js_shr (Num 0xffffffff) prefix))
                 in Inr \<lparr>startIP = intToIP (startNum + 1),
                         endIP = intToIP (endNum - 1),
                         cidr = input,
                         totalHosts = max 0 ((endNum - startNum) - 1)\<rparr>))
         | _ \<Rightarrow> Inl TypeError)
      else if js_includes input CHR ''-'' then
        (case map trim (split_on CHR ''-'' input) of
           start # end # _ \<Rightarrow>
             (let startInt = ipToInt start; endInt = ipToInt end in
              if startInt > endInt then Inl StartGreaterThanEnd
              else Inr \<lparr>startIP = start,
                        endIP = end,
                        cidr = start @ ''-'' @ end,
                        totalHosts = endInt - startInt + 1\<rparr>)
         | _ \<Rightarrow> Inl TypeError)
      else if isValidIP input then
        Inr \<lparr>startIP = input, endIP = input, cidr = input, totalHosts = 1\<rparr>
      else Inl InvalidIPRangeFormat)"

text \<open>\<open>for (let i = startInt; i <= endInt; i++) ips.push(this.intToIP(i))\<close>\<close>

function ipLoop :: "int \<Rightarrow> int \<Rightarrow> string list \<Rightarrow> string list" where
  "ipLoop i endInt ips = (if i \<le> endInt then ipLoop (i + 1) endInt (ips @ [intToIP i]) else ips)"
  by pat_completeness auto
termination
  by (relation "measure (\<lambda>(i, endInt, ips). nat (endInt + 1 - i))") auto

definition generateIPList :: "NetworkRange \<Rightarrow> string list" where
  "generateIPList rng =
     (let startInt = ipToInt (startIP rng); endInt = ipToInt (endIP rng)
      in ipLoop startInt endInt [])"

subsection \<open>CIDR blocks as the specification states them\<close>

text \<open>
  The netmask of a prefix length, the network address \<open>quad & mask\<close> and the broadcast
  address \<open>network | ~mask\<close> of the specification, on 32-bit words. They are what
  \<open>parseIPRange\<close> is compared with; the code computes its own mask with the shift
  operators.
\<close>

definition specMask :: "nat \<Rightarrow> 32 word" where
  "specMask p = NOT (mask (32 - p))"

definition specNetwork :: "int \<Rightarrow> nat \<Rightarrow> 32 word" where
  "specNetwork q p = word_of_int q AND specMask p"

definition specBroadcast :: "int \<Rightarrow> nat \<Rightarrow> 32 word" where
  "specBroadcast q p = specNetwork q p OR NOT (specMask p)"

subsection \<open>Canonical dotted quads\<close>

text \<open>
  The text that \<open>intToIP\<close> prints: four decimal octets, each at most 255 and written
  without leading zeros, separated by dots.
\<close>

definition canonicalOctet :: "string \<Rightarrow> bool" where
  "canonicalOctet t =
     (t \<noteq> [] \<and> list_all isDigit t \<and> (1 < length t \<longrightarrow> hd t \<noteq> CHR ''0'') \<and> digitsValue t \<le> 255)"

definition canonicalQuad :: "string \<Rightarrow> bool" where
  "canonicalQuad s =
     (case split_on CHR ''.'' s of
        [a, b, c, d] \<Rightarrow> canonicalOctet a \<and> canonicalOctet b \<and> canonicalOctet c \<and> canonicalOctet d
      | _ \<Rightarrow> False)"

section \<open>Double-precision arithmetic of the progress percentage\<close>

text \<open>
  \<open>Math.round((completed / total) * 100)\<close> divides and multiplies in IEEE 754 binary64.
  Every such operation returns the exact result rounded to 53 significant bits, ties to
  even; \<open>fl\<close> is that rounding on the positive rationals of the normal range, which
  contains every quotient and product the scan computes. \<open>Math.round\<close> takes the
  nearest integer, ties towards plus infinity.
\<close>

definition rne :: "rat \<Rightarrow> int" where
  "rne x =
     (let q = \<lfloor>x\<rfloor>; f = x - of_int q in
      if f < 1 / 2 then q else if f > 1 / 2 then q + 1 else if even q then q else q + 1)"

function log2up :: "rat \<Rightarrow> int" where
  "log2up x = (if x < 2 then 0 else log2up (x / 2) + 1)"
  by pat_completeness auto
termination
proof (relation "measure (\<lambda>x. nat \<lfloor>x\<rfloor>)")
  show "wf (measure (\<lambda>x :: rat. nat \<lfloor>x\<rfloor>))" by simp
next
  fix x :: rat
  assume "\<not> x < 2"
  then have "\<lfloor>x / 2\<rfloor> < \<lfloor>x\<rfloor>" "0 < \<lfloor>x\<rfloor>" by linarith+
  then show "(x / 2, x) \<in> measure (\<lambda>x. nat \<lfloor>x\<rfloor>)" by simp
qed

function log2down :: "rat \<Rightarrow> int" where
  "log2down x = (if x \<le> 0 \<or> 1 \<le> x then 0 else log2down (x * 2) - 1)"
  by pat_completeness auto
termination
proof (relation "measure (\<lambda>x. nat \<lceil>1 / x\<rceil>)")
  show "wf (measure (\<lambda>x :: rat. nat \<lceil>1 / x\<rceil>))" by simp
next
  fix x :: rat
  assume "\<not> (x \<le> 0 \<or> 1 \<le> x)"
  then have x: "0 < x" "x < 1" by simp_all
  define y where "y = 1 / x"
  have y: "1 < y" using x by (simp add: y_def)
  then have "2 \<le> \<lceil>y\<rceil>" by linarith
  then have "y / 2 \<le> of_int \<lceil>y\<rceil> - 1" using le_of_int_ceiling [of y] by linarith
  then have "\<lceil>y / 2\<rceil> < \<lceil>y\<rceil>" by (simp add: ceiling_less_iff)
  moreover have "0 < \<lceil>y\<rceil>" using y by linarith
  ultimately have "nat \<lceil>y / 2\<rceil> < nat \<lceil>y\<rceil>" by linarith
  moreover have "1 / (x * 2) = y / 2" by (simp add: y_def)
  ultimately have "nat \<lceil>1 / (x * 2)\<rceil> < nat \<lceil>1 / x\<rceil>"
    by (simp only: y_def)
  then show "(x * 2, x) \<in> measure (\<lambda>x. nat \<lceil>1 / x\<rceil>)"
    by (simp only: in_measure)
qed

text \<open>The binary exponent of a positive rational: \<open>2 powi ilog2 x \<le> x < 2 powi (ilog2 x + 1)\<close>.\<close>

definition ilog2 :: "rat \<Rightarrow> int" where
  "ilog2 x = (if 1 \<le> x then log2up x else log2down x)"

definition fl :: "rat \<Rightarrow> rat" where
  "fl x =
     (if x \<le> 0 then 0
      else (let ulp = 2 powi (ilog2 x - 52) in of_int (rne (x / ulp)) * ulp))"

definition js_round :: "rat \<Rightarrow> int" where
  "js_round x = \<lfloor>x + 1 / 2\<rfloor>"

text \<open>\<open>Math.round((completed / total) * 100)\<close>\<close>

definition percentage :: "nat \<Rightarrow> nat \<Rightarrow> int" where
  "percentage completedCount totalCount =
     js_round (fl (fl (of_nat completedCount / of_nat totalCount) * 100))"

section \<open>Probes\<close>



record ScanTarget =
  ip :: string
  isActive :: bool
  responseTime :: "int option"
  lastSeen :: "int option"

record PortScanResult =
  port :: int
  isOpen :: bool
  service :: string
  responseTime :: "int option"




text \<open>
  What the operating system answers to one ping command: \<open>execAsync\<close> resolves with the
  output of the command or rejects (the command fails or cannot be started).
\<close>

datatype execResult = Resolved string | Rejected

record execRun =
  execStart :: int
  execOutcome :: execResult
  execEnd :: int
  newDate :: int

fun includesStr :: "string \<Rightarrow> string \<Rightarrow> bool" where
  "includesStr [] needle = (needle = [])"
| "includesStr (c # s) needle = (take (length needle) (c # s) = needle \<or> includesStr s needle)"

text \<open>The body of the \<open>try\<close> block: \<open>Inl\<close> is the exception it throws.\<close>

definition pingTry :: "string \<Rightarrow> int \<Rightarrow> bool \<Rightarrow> execRun \<Rightarrow> unit + ScanTarget" where
  "pingTry host timeout isWindows run =
     (case execOutcome run of
        Rejected \<Rightarrow> Inl ()
      | Resolved stdout \<Rightarrow>
          (let elapsed = execEnd run - execStart run;
               active = (if isWindows then includesStr stdout ''Reply from''
                         else includesStr stdout ''1 received'')
           in Inr \<lparr>ip = host, isActive = active,
                   ScanTarget.responseTime = (if active then Some elapsed else None),
                   lastSeen = (if active then Some (newDate run) else None)\<rparr>))"

definition pingHost :: "string \<Rightarrow> int \<Rightarrow> bool \<Rightarrow> execRun \<Rightarrow> ScanTarget" where
  "pingHost host timeout isWindows run =
     (case pingTry host timeout isWindows run of
        Inr target \<Rightarrow> target
      | Inl _ \<Rightarrow>
          \<lparr>ip = host, isActive = False, ScanTarget.responseTime = None, lastSeen = None\<rparr>)"

section \<open>The batch scheduler of scanPorts and discoverNetwork\<close>

text \<open>\<open>array.slice(start, end)\<close>\<close>

definition js_slice :: "'a list \<Rightarrow> int \<Rightarrow> int \<Rightarrow> 'a list" where
  "js_slice xs start end =
     (let len = int (length xs);
          k = (if start < 0 then max (len + start) 0 else min start len);
          final = (if end < 0 then max (len + end) 0 else min end len)
      in take (nat (final - k)) (drop (nat k) xs))"

text \<open>
  \<open>for (let i = 0; i < array.length; i += size) chunks.push(array.slice(i, i + size))\<close>.
  The loop does not end when the size is not positive and the array is not empty.
\<close>

partial_function (option) chunkLoop ::
  "'a list \<Rightarrow> int \<Rightarrow> int \<Rightarrow> 'a list list \<Rightarrow> 'a list list option" where
  "chunkLoop array chunkSize i chunks =
     (if i < int (length array)
      then chunkLoop array chunkSize (i + chunkSize) (chunks @ [js_slice array i (i + chunkSize)])
      else Some chunks)"

declare chunkLoop.simps [code]

definition chunkArray :: "'a list \<Rightarrow> int \<Rightarrow> 'a list list option" where
  "chunkArray array chunkSize = chunkLoop array chunkSize 0 []"

text \<open>
  The state of one scan: the results pushed so far, the counter \<open>completed\<close>, the calls
  the progress callback has received, and the number of probes started.
\<close>

record ('a, 'r) scanState =
  results :: "'r list"
  completed :: nat
  calls :: "(int \<times> 'a) list"
  started :: nat

text \<open>
  One probe settles: \<open>completed++; onProgress(Math.round((completed / total) * 100), item)\<close>.
\<close>

definition settle :: "nat \<Rightarrow> nat \<times> (int \<times> 'a) list \<Rightarrow> 'a \<Rightarrow> nat \<times> (int \<times> 'a) list" where
  "settle totalCount st item =
     (let completedCount = fst st + 1
      in (completedCount, snd st @ [(percentage completedCount totalCount, item)]))"

text \<open>
  One batch. Its probes start together; \<open>probe k item\<close> is the record the \<open>k\<close>-th probe
  of the scan resolves with and \<open>finish k\<close> the instant at which it does. The
  continuations run in the order of these instants, \<open>Promise.all\<close> returns the records in
  the order of the batch.
\<close>

definition runChunk ::
  "(nat \<Rightarrow> 'a \<Rightarrow> 'r) \<Rightarrow> (nat \<Rightarrow> nat) \<Rightarrow> nat \<Rightarrow> ('a, 'r) scanState \<Rightarrow> 'a list \<Rightarrow> ('a, 'r) scanState" where
  "runChunk probe finish totalCount st chunk =
     (let promises = enumerate (started st) chunk;
          settled = map snd (sort_key (\<lambda>(k, item). finish k) promises);
          progress = foldl (settle totalCount) (completed st, calls st) settled;
          chunkResults = map (\<lambda>(k, item). probe k item) promises
      in \<lparr>results = results st @ chunkResults,
          completed = fst progress,
          calls = snd progress,
          started = started st + length chunk\<rparr>)"

definition runChunks ::
  "(nat \<Rightarrow> 'a \<Rightarrow> 'r) \<Rightarrow> (nat \<Rightarrow> nat) \<Rightarrow> nat \<Rightarrow> 'a list list \<Rightarrow> ('a, 'r) scanState" where
  "runChunks probe finish totalCount chunks =
     foldl (runChunk probe finish totalCount)
       \<lparr>results = [], completed = 0, calls = [], started = 0\<rparr> chunks"


definition discoverNetwork ::
  "string list \<Rightarrow> int \<Rightarrow> int \<Rightarrow> bool \<Rightarrow> (nat \<Rightarrow> execRun) \<Rightarrow> (nat \<Rightarrow> nat)
     \<Rightarrow> (ScanTarget list \<times> (int \<times> string) list) option" where
  "discoverNetwork targets timeout concurrency isWindows os finish =
     (case chunkArray targets concurrency of
        None \<Rightarrow> None
      | Some chunks \<Rightarrow>
          (let st = runChunks (\<lambda>k host. pingHost host timeout isWindows (os k)) finish
                      (length targets) chunks
           in Some (results st, calls st)))"



section \<open>Properties of the string and number primitives\<close>


lemma split_on_nonempty: "split_on c s \<noteq> []"
  by (induction s) (auto split: list.splits)










declare natToString.simps [simp del]

lemma digitVal_digitChar: "d < 10 \<Longrightarrow> digitVal (digitChar d) = int d"
  by (simp add: digitVal_def digitChar_def)

lemma isDigit_digitChar: "d < 10 \<Longrightarrow> isDigit (digitChar d)"
  by (simp add: isDigit_def digitChar_def)

lemma natToString_digits: "\<forall>c \<in> set (natToString n). isDigit c"
proof (induction n rule: natToString.induct)
  case (1 n)
  show ?case
  proof (cases "n < 10")
    case True
    then show ?thesis by (subst natToString.simps) (simp add: isDigit_digitChar)
  next
    case False
    then show ?thesis using 1
      by (subst natToString.simps) (simp add: isDigit_digitChar)
  qed
qed

lemma natToString_nonempty: "natToString n \<noteq> []"
  by (subst natToString.simps) simp

lemma digitsValue_snoc: "digitsValue (ds @ [c]) = digitsValue ds * 10 + digitVal c"
  by (simp add: digitsValue_def)

lemma digitsValue_natToString: "digitsValue (natToString n) = int n"
proof (induction n rule: natToString.induct)
  case (1 n)
  show ?case
  proof (cases "n < 10")
    case True
    then show ?thesis
      by (subst natToString.simps) (simp add: digitsValue_def digitVal_digitChar)
  next
    case False
    then have "digitsValue (natToString n) = digitsValue (natToString (n div 10)) * 10 + int (n mod 10)"
      by (subst natToString.simps) (simp add: digitsValue_snoc digitVal_digitChar)
    also have "\<dots> = int (n div 10) * 10 + int (n mod 10)"
      using 1 False by simp
    also have "\<dots> = int n"
      by presburger
    finally show ?thesis .
  qed
qed

lemma isDigit_not_space: "isDigit c \<Longrightarrow> \<not> isSpace c"
  by (auto simp: isDigit_def isSpace_def)

lemma isDigit_not_sign: "isDigit c \<Longrightarrow> c \<noteq> CHR ''-'' \<and> c \<noteq> CHR ''+'' \<and> c \<noteq> CHR ''.''"
  by (auto simp: isDigit_def)

lemma parseInt_digits:
  assumes "ds \<noteq> []" and "\<forall>c \<in> set ds. isDigit c"
  shows "parseInt ds = Num (digitsValue ds)"
proof -
  obtain c r where ds: "ds = c # r" using assms(1) by (cases ds) auto
  have c: "isDigit c" using assms(2) ds by simp
  have tw: "takeWhile isDigit ds = ds" using assms(2) by (simp add: takeWhile_eq_all_conv)
  have "dropWhile isSpace ds = ds" using c ds isDigit_not_space by simp
  then show ?thesis
    using isDigit_not_sign [OF c] tw ds
    by (simp add: parseInt_def parseDigits_def)
qed

lemma parseInt_natToString: "parseInt (natToString n) = Num (int n)"
  using parseInt_digits [OF natToString_nonempty natToString_digits]
  by (simp add: digitsValue_natToString)

lemma split_on_no_sep: "c \<notin> set s \<Longrightarrow> split_on c s = [s]"
  by (induction s) auto

lemma split_on_append:
  "c \<notin> set a \<Longrightarrow> split_on c (a @ c # s) = a # split_on c s"
  by (induction a) auto

lemma split_on_join4:
  assumes "c \<notin> set a" "c \<notin> set b" "c \<notin> set d" "c \<notin> set e"
  shows "split_on c (join c [a, b, d, e]) = [a, b, d, e]"
  using assms by (simp add: split_on_append split_on_no_sep)

lemma join_Cons_first: "join c ((x # a) # list) = x # join c (a # list)"
  by (cases list) auto

lemma join_split_on: "join c (split_on c s) = s"
proof (induction s)
  case Nil
  then show ?case by simp
next
  case (Cons x xs)
  then show ?case
    using split_on_nonempty [of c xs]
    by (cases "split_on c xs") (auto simp: join_Cons_first split: list.splits)
qed

lemma uint_wi32: "0 \<le> V \<Longrightarrow> V < 2 ^ 32 \<Longrightarrow> uint (word_of_int V :: 32 word) = V"
  by (simp add: uint_word_of_int)

lemma m255: "(255 :: 32 word) = mask 8"
  by (simp add: mask_eq_exp_minus_1)

lemma sar_and_255:
  "k \<le> 24 \<Longrightarrow> (signed_drop_bit k (w :: 32 word)) AND 255 = take_bit 8 (drop_bit k w)"
  unfolding m255
  by (rule bit_word_eqI) (auto simp: bit_simps)

lemma sint_take_bit8: "sint (take_bit 8 (x :: 32 word)) = uint x mod 256"
proof -
  have "uint (take_bit 8 x) = uint x mod 256"
    unfolding unsigned_take_bit_eq by (simp add: take_bit_eq_mod)
  moreover have "uint (take_bit 8 x) < 2 ^ 31"
    using calculation by (simp add: pos_mod_bound [of 256 "uint x"] less_trans [OF _ _])
  moreover have "0 \<le> uint (take_bit 8 x)" by simp
  ultimately show ?thesis
    using signed_take_bit_int_eq_self [of 31 "uint (take_bit 8 x)"]
    by (simp add: sint_uint)
qed

lemma uint_drop_bit32: "uint (drop_bit k (w :: 32 word)) = uint w div 2 ^ k"
proof -
  have "take_bit 32 (uint w) = uint w"
    using take_bit_int_eq_self [of "uint w" 32] uint_lt2p [of w] by simp
  then show ?thesis
    unfolding unsigned_drop_bit_eq by (simp add: drop_bit_eq_div)
qed

lemma shiftCount_simps [simp]:
  "shiftCount (Num 0) = 0" "shiftCount (Num 8) = 8" "shiftCount (Num 16) = 16" "shiftCount (Num 24) = 24"
  by (simp_all add: shiftCount_def)

lemma natToString_no_dot: "CHR ''.'' \<notin> set (natToString n)"
  using natToString_digits [of n] isDigit_not_sign by blast

lemma ipToInt_join4:
  assumes "a \<le> 255" "b \<le> 255" "c \<le> 255" "d \<le> 255"
  shows "ipToInt (join CHR ''.'' (map natToString [a, b, c, d])) =
         int a * 2 ^ 24 + int b * 2 ^ 16 + int c * 2 ^ 8 + int d"
proof -
  let ?V = "int a * 2 ^ 24 + int b * 2 ^ 16 + int c * 2 ^ 8 + int d"
  have sp: "split_on CHR ''.'' (join CHR ''.'' (map natToString [a, b, c, d])) =
            map natToString [a, b, c, d]"
    using split_on_join4 [of "CHR ''.''" "natToString a" "natToString b" "natToString c" "natToString d"]
    by (simp add: natToString_no_dot)
  have "ipToInt (join CHR ''.'' (map natToString [a, b, c, d])) =
        uint (push_bit 8 (push_bit 8 (push_bit 8 (word_of_int (int a) :: 32 word)
                + word_of_int (int b)) + word_of_int (int c)) + word_of_int (int d))"
    unfolding ipToInt_def sp
    by (simp add: parseInt_natToString js_shl_def js_shr_def)
  also have "push_bit 8 (push_bit 8 (push_bit 8 (word_of_int (int a) :: 32 word)
                + word_of_int (int b)) + word_of_int (int c)) + word_of_int (int d)
             = word_of_int ?V"
    by (simp add: push_bit_eq_mult algebra_simps)
  also have "uint (word_of_int ?V :: 32 word) = ?V"
  proof (rule uint_wi32)
    show "0 \<le> ?V" by simp
    show "?V < 2 ^ 32" using assms by simp
  qed
  finally show ?thesis .
qed

lemma and_255: "(w :: 32 word) AND 255 = take_bit 8 (drop_bit 0 w)"
  using sar_and_255 [of 0 w] by simp

lemma intToIP_octets:
  assumes "0 \<le> n" "n < 2 ^ 32"
  shows "intToIP n = join CHR ''.'' (map natToString
           [nat (n div 2 ^ 24), nat ((n div 2 ^ 16) mod 256), nat ((n div 2 ^ 8) mod 256), nat (n mod 256)])"
proof -
  let ?w = "word_of_int n :: 32 word"
  have u: "uint ?w = n" using assms by (rule uint_wi32)
  have a: "js_shr (Num n) (Num 24) = n div 2 ^ 24"
    by (simp only: js_shr_def shiftCount_simps toInt32.simps uint_drop_bit32 u)
  have rt: "(word_of_int (sint x) :: 32 word) = x" for x :: "32 word"
    by simp
  have n255: "(word_of_int 255 :: 32 word) = 255"
    by simp
  have sar: "js_and (Num (js_sar (Num n) (Num k))) (Num 255) = (n div 2 ^ shiftCount (Num k)) mod 256"
    if "shiftCount (Num k) \<le> 24" for k
    by (simp only: js_and_def js_sar_def toInt32.simps rt n255
        sar_and_255 [OF that] sint_take_bit8 uint_drop_bit32 u)
  have b: "js_and (Num (js_sar (Num n) (Num 16))) (Num 255) = (n div 2 ^ 16) mod 256"
    using sar [of 16] by simp
  have c: "js_and (Num (js_sar (Num n) (Num 8))) (Num 255) = (n div 2 ^ 8) mod 256"
    using sar [of 8] by simp
  have d: "js_and (Num n) (Num 255) = n mod 256"
    by (simp only: js_and_def toInt32.simps n255 and_255 sint_take_bit8 uint_drop_bit32 u) simp
  have nn: "0 \<le> n div 2 ^ 24" "0 \<le> (n div 2 ^ 16) mod 256" "0 \<le> (n div 2 ^ 8) mod 256" "0 \<le> n mod 256"
    using assms by simp_all
  have ns: "numToString x = natToString (nat x)" if "0 \<le> x" for x
    using that by (simp add: numToString_def)
  show ?thesis
    unfolding intToIP_def a b c d by (simp only: list.map nn ns)
qed

subsection \<open>Octets of a 32-bit value\<close>

lemma mod256_digit: "0 \<le> d \<Longrightarrow> d < 256 \<Longrightarrow> (k * 256 + d) mod 256 = (d :: int)"
  by simp

lemma div256_digit: "0 \<le> d \<Longrightarrow> d < 256 \<Longrightarrow> (k * 256 + d) div 256 = (k :: int)"
  by simp

lemma div_chain:
  fixes n :: int
  shows "n div 2 ^ 8 = n div 256" "n div 2 ^ 16 = n div 256 div 256"
    "n div 2 ^ 24 = n div 256 div 256 div 256"
  by (simp_all add: div_mult2_eq [symmetric])

lemma recombine:
  fixes n :: int
  shows "(n div 2 ^ 24) * 2 ^ 24 + ((n div 2 ^ 16) mod 256) * 2 ^ 16 + ((n div 2 ^ 8) mod 256) * 2 ^ 8 + n mod 256 = n"
proof -
  define q1 where "q1 = n div 256"
  define q2 where "q2 = q1 div 256"
  define q3 where "q3 = q2 div 256"
  have 1: "n = q1 * 256 + n mod 256" by (simp add: q1_def)
  have 2: "q1 = q2 * 256 + q1 mod 256" by (simp add: q2_def)
  have 3: "q2 = q3 * 256 + q2 mod 256" by (simp add: q3_def)
  have "q3 * 2 ^ 24 + (q2 mod 256) * 2 ^ 16 + (q1 mod 256) * 2 ^ 8 + n mod 256 = n"
    using 1 2 3 by simp
  then show ?thesis
    by (simp only: div_chain q1_def q2_def q3_def)
qed

lemma octets_of_value:
  fixes a b c d :: int
  assumes "0 \<le> b" "b \<le> 255" "0 \<le> c" "c \<le> 255" "0 \<le> d" "d \<le> 255"
  shows "(a * 2 ^ 24 + b * 2 ^ 16 + c * 2 ^ 8 + d) div 2 ^ 24 = a"
    and "((a * 2 ^ 24 + b * 2 ^ 16 + c * 2 ^ 8 + d) div 2 ^ 16) mod 256 = b"
    and "((a * 2 ^ 24 + b * 2 ^ 16 + c * 2 ^ 8 + d) div 2 ^ 8) mod 256 = c"
    and "(a * 2 ^ 24 + b * 2 ^ 16 + c * 2 ^ 8 + d) mod 256 = d"
proof -
  let ?V = "a * 2 ^ 24 + b * 2 ^ 16 + c * 2 ^ 8 + d"
  have m0: "?V = ((a * 256 + b) * 256 + c) * 256 + d" by (simp add: algebra_simps)
  have q1: "?V div 256 = (a * 256 + b) * 256 + c"
    unfolding m0 using assms by (intro div256_digit) simp_all
  have q2: "?V div 256 div 256 = a * 256 + b"
    unfolding q1 using assms by (intro div256_digit) simp_all
  have q3: "?V div 256 div 256 div 256 = a"
    unfolding q2 using assms by (intro div256_digit) simp_all
  show "?V div 2 ^ 24 = a" by (simp only: div_chain q3)
  show "(?V div 2 ^ 16) mod 256 = b"
    unfolding div_chain q2 using assms by (intro mod256_digit) simp_all
  show "(?V div 2 ^ 8) mod 256 = c"
    unfolding div_chain q1 using assms by (intro mod256_digit) simp_all
  show "?V mod 256 = d"
    unfolding m0 using assms by (intro mod256_digit) simp_all
qed

lemma top_octet: fixes n :: int assumes "0 \<le> n" "n < 2 ^ 32" shows "n div 2 ^ 24 \<le> 255"
  using assms by simp

subsection \<open>Printing and reading dotted quads\<close>

lemma digitChar_digitVal: "isDigit c \<Longrightarrow> digitChar (nat (digitVal c)) = c"
  by (simp add: isDigit_def digitVal_def digitChar_def nat_diff_distrib)

lemma digitVal_range: "isDigit c \<Longrightarrow> 0 \<le> digitVal c \<and> digitVal c \<le> 9"
  by (auto simp: isDigit_def digitVal_def)

lemma digitVal_pos: "isDigit c \<Longrightarrow> c \<noteq> CHR ''0'' \<Longrightarrow> 1 \<le> digitVal c"
proof -
  assume d: "isDigit c" and z: "c \<noteq> CHR ''0''"
  have "of_char c \<noteq> (of_char CHR ''0'' :: nat)"
    using z by (simp only: of_char_eq_iff not_False_eq_True)
  then have "of_char c \<noteq> (48 :: nat)" by simp
  then show ?thesis using d by (auto simp: isDigit_def digitVal_def)
qed

lemma foldl_digits_ge:
  "list_all isDigit r \<Longrightarrow> 0 \<le> acc \<Longrightarrow> acc \<le> foldl (\<lambda>acc c. acc * 10 + digitVal c) acc r"
proof (induction r arbitrary: acc)
  case Nil
  then show ?case by simp
next
  case (Cons c r)
  then have d: "0 \<le> digitVal c" using digitVal_range by simp
  have "acc \<le> acc * 10 + digitVal c" using Cons.prems d by simp
  also have "\<dots> \<le> foldl (\<lambda>acc c. acc * 10 + digitVal c) (acc * 10 + digitVal c) r"
    using Cons d by (intro Cons.IH) simp_all
  finally show ?case by simp
qed

lemma digitsValue_pos:
  assumes "ds \<noteq> []" "list_all isDigit ds" "hd ds \<noteq> CHR ''0''"
  shows "1 \<le> digitsValue ds"
proof -
  obtain c r where ds: "ds = c # r" using assms(1) by (cases ds) auto
  have "1 \<le> digitVal c" using assms ds by (intro digitVal_pos) simp_all
  moreover have "digitVal c \<le> foldl (\<lambda>acc c. acc * 10 + digitVal c) (digitVal c) r"
    using assms ds calculation by (intro foldl_digits_ge) simp_all
  ultimately show ?thesis by (simp add: digitsValue_def ds)
qed

lemma natToString_digitsValue:
  "t \<noteq> [] \<Longrightarrow> list_all isDigit t \<Longrightarrow> (1 < length t \<longrightarrow> hd t \<noteq> CHR ''0'')
     \<Longrightarrow> natToString (nat (digitsValue t)) = t"
proof (induction t rule: rev_induct)
  case Nil
  then show ?case by simp
next
  case (snoc c ds)
  have c: "isDigit c" using snoc.prems by simp
  have r: "0 \<le> digitVal c" "digitVal c \<le> 9" using digitVal_range [OF c] by simp_all
  show ?case
  proof (cases "ds = []")
    case True
    then have "digitsValue (ds @ [c]) = digitVal c" by (simp add: digitsValue_def)
    moreover have "nat (digitVal c) < 10" using r by simp
    ultimately show ?thesis
      using True by (subst natToString.simps) (simp add: digitChar_digitVal [OF c])
  next
    case False
    then have hd: "hd ds \<noteq> CHR ''0''" using snoc.prems by simp
    have dg: "list_all isDigit ds" using snoc.prems by simp
    have ih: "natToString (nat (digitsValue ds)) = ds"
      using False dg hd by (intro snoc.IH) simp_all
    have v: "1 \<le> digitsValue ds" using False dg hd by (rule digitsValue_pos)
    define m where "m = nat (digitsValue ds)"
    define d where "d = nat (digitVal c)"
    have m: "1 \<le> m" and d: "d < 10" using v r by (simp_all add: m_def d_def)
    have "nat (digitsValue (ds @ [c])) = m * 10 + d"
      using v r by (simp add: digitsValue_snoc m_def d_def nat_add_distrib nat_mult_distrib)
    moreover have "natToString (m * 10 + d) = natToString m @ [digitChar d]"
      using m d by (subst natToString.simps) simp
    ultimately show ?thesis
      using ih by (simp add: m_def d_def digitChar_digitVal [OF c])
  qed
qed

lemma canonicalOctet_natToString:
  assumes "canonicalOctet t"
  shows "natToString (nat (digitsValue t)) = t" and "nat (digitsValue t) \<le> 255"
proof -
  show "natToString (nat (digitsValue t)) = t"
    using assms natToString_digitsValue [of t] by (simp add: canonicalOctet_def)
  have "digitsValue t \<le> 255" using assms by (simp add: canonicalOctet_def)
  then show "nat (digitsValue t) \<le> 255" by linarith
qed

lemma ipToInt_intToIP:
  assumes "0 \<le> n" "n < 2 ^ 32"
  shows "ipToInt (intToIP n) = n"
proof -
  define a where "a = nat (n div 2 ^ 24)"
  define b where "b = nat ((n div 2 ^ 16) mod 256)"
  define c where "c = nat ((n div 2 ^ 8) mod 256)"
  define d where "d = nat (n mod 256)"
  have ia: "int a = n div 2 ^ 24" and ib: "int b = (n div 2 ^ 16) mod 256"
    and ic: "int c = (n div 2 ^ 8) mod 256" and id: "int d = n mod 256"
    using assms by (simp_all add: a_def b_def c_def d_def)
  have "a \<le> 255" using top_octet [OF assms] ia by linarith
  moreover have "b \<le> 255" "c \<le> 255" "d \<le> 255"
    using ib ic id pos_mod_bound [of 256 "n div 2 ^ 16"] pos_mod_bound [of 256 "n div 2 ^ 8"]
      pos_mod_bound [of 256 n] by linarith+
  ultimately have "ipToInt (join CHR ''.'' (map natToString [a, b, c, d])) =
      int a * 2 ^ 24 + int b * 2 ^ 16 + int c * 2 ^ 8 + int d"
    by (rule ipToInt_join4)
  also have "\<dots> = n"
    unfolding ia ib ic id by (rule recombine)
  finally show ?thesis
    using intToIP_octets [OF assms] by (simp only: a_def b_def c_def d_def)
qed

lemma intToIP_ipToInt:
  assumes "canonicalQuad s"
  shows "intToIP (ipToInt s) = s"
proof -
  from assms obtain ta tb tc td where sp: "split_on CHR ''.'' s = [ta, tb, tc, td]"
    and oc: "canonicalOctet ta" "canonicalOctet tb" "canonicalOctet tc" "canonicalOctet td"
    by (auto simp: canonicalQuad_def split: list.splits)
  define a where "a = nat (digitsValue ta)"
  define b where "b = nat (digitsValue tb)"
  define c where "c = nat (digitsValue tc)"
  define d where "d = nat (digitsValue td)"
  have ts: "natToString a = ta" "natToString b = tb" "natToString c = tc" "natToString d = td"
    and le: "a \<le> 255" "b \<le> 255" "c \<le> 255" "d \<le> 255"
    using oc canonicalOctet_natToString by (simp_all add: a_def b_def c_def d_def)
  have s: "s = join CHR ''.'' (map natToString [a, b, c, d])"
    using join_split_on [of "CHR ''.''" s] sp ts by simp
  let ?V = "int a * 2 ^ 24 + int b * 2 ^ 16 + int c * 2 ^ 8 + int d"
  have V: "ipToInt s = ?V"
    unfolding s using le by (rule ipToInt_join4)
  have V0: "0 \<le> ?V" by simp
  have V1: "?V < 2 ^ 32" using le by simp
  have o: "?V div 2 ^ 24 = int a" "(?V div 2 ^ 16) mod 256 = int b"
      "(?V div 2 ^ 8) mod 256 = int c" "?V mod 256 = int d"
    using le by (intro octets_of_value; simp)+
  have "intToIP ?V = join CHR ''.'' (map natToString [a, b, c, d])"
    unfolding intToIP_octets [OF V0 V1] o by simp
  then show ?thesis
    using V s by simp
qed

subsection \<open>Enumeration\<close>

lemma ipLoop_upto: "ipLoop i e ips = ips @ map intToIP [i..e]"
proof (induction i e ips rule: ipLoop.induct)
  case (1 i e ips)
  show ?case
  proof (cases "i \<le> e")
    case True
    then have "ipLoop i e ips = ipLoop (i + 1) e (ips @ [intToIP i])"
      by (subst ipLoop.simps) simp
    also have "\<dots> = (ips @ [intToIP i]) @ map intToIP [i + 1..e]"
      using 1 True by simp
    also have "\<dots> = ips @ map intToIP [i..e]"
      using True by (simp add: upto_rec1)
    finally show ?thesis .
  next
    case False
    then show ?thesis by (subst ipLoop.simps) simp
  qed
qed

lemma generateIPList_upto:
  "generateIPList r = map intToIP [ipToInt (startIP r)..ipToInt (endIP r)]"
  by (simp add: generateIPList_def Let_def ipLoop_upto del: ipLoop.simps)

lemma length_generateIPList:
  "length (generateIPList r) = nat (ipToInt (endIP r) - ipToInt (startIP r) + 1)"
  by (simp add: generateIPList_upto)

subsection \<open>CIDR blocks with a prefix from 1 to 31\<close>

text \<open>
  For these prefixes \<open>parseIPRange\<close> and \<open>generateIPList\<close> agree with the specification:
  the range runs from the network address plus one to the broadcast address minus one,
  \<open>totalHosts\<close> is the number of addresses between them, and the enumeration has
  exactly that many addresses, neither the network nor the broadcast address among them.
\<close>

lemma shiftCount_small:
  assumes "0 \<le> k" "k < 32"
  shows "shiftCount (Num k) = nat k"
proof -
  have m: "(31 :: 32 word) = mask 5" by (simp add: mask_eq_exp_minus_1)
  have u: "uint (word_of_int k :: 32 word) = k" using assms by (intro uint_wi32) simp_all
  have "uint ((word_of_int k :: 32 word) AND mask 5) = take_bit 5 k"
    by (simp only: and_mask_bintr u uint_word_of_int_eq) simp
  also have "\<dots> = k" using assms by (simp add: take_bit_eq_mod)
  finally have "uint ((word_of_int k :: 32 word) AND 31) = k" unfolding m .
  then have "nat (uint ((word_of_int k :: 32 word) AND 31)) = nat k" by simp
  then show ?thesis by (simp only: shiftCount_def toInt32.simps nat_uint_eq)
qed

lemma allOnes: "toInt32 (Num 0xffffffff) = - 1"
  by simp

lemma drop_bit_allOnes:
  "p \<le> 32 \<Longrightarrow> drop_bit p (- 1 :: 32 word) = mask (32 - p)"
  by (rule bit_word_eqI) (auto simp: bit_simps)

lemma cidr_words:
  fixes q :: int and p :: nat
  assumes "1 \<le> p" "p \<le> 31"
  defines "mask32 \<equiv> js_shl (Num 0xffffffff) (js_sub (Num 32) (Num (int p)))"
  defines "startNum \<equiv> js_and (Num q) (Num mask32)"
  defines "endNum \<equiv> js_or (Num startNum) (Num (js_shr (Num 0xffffffff) (Num (int p))))"
  shows "startNum = sint (specNetwork q p)" and "endNum = sint (specBroadcast q p)"
proof -
  have s1: "shiftCount (Num (32 - int p)) = 32 - p"
    using assms(1,2) shiftCount_small [of "32 - int p"] by simp
  have s2: "shiftCount (Num (int p)) = p"
    using assms(1,2) shiftCount_small [of "int p"] by simp
  have m: "mask32 = sint (specMask p)"
    unfolding mask32_def js_shl_def js_sub.simps s1 allOnes specMask_def by simp
  show st: "startNum = sint (specNetwork q p)"
    unfolding startNum_def js_and_def m specNetwork_def by simp
  have "js_shr (Num 0xffffffff) (Num (int p)) = uint (mask (32 - p) :: 32 word)"
    unfolding js_shr_def s2 allOnes using assms(2) by (simp only: drop_bit_allOnes)
  then show "endNum = sint (specBroadcast q p)"
    unfolding endNum_def js_or_def st specBroadcast_def specMask_def by simp
qed

lemma sint_msb: "sint (w :: 32 word) = uint w - 2 ^ 32 * of_bool (bit w 31)"
proof -
  have "sint w = signed_take_bit 31 (uint w)" by (simp add: sint_uint)
  also have "\<dots> = take_bit 32 (uint w) - 2 ^ 32 * of_bool (bit (uint w) 31)"
    by (simp add: signed_take_bit_eq_take_bit_minus)
  also have "take_bit 32 (uint w) = uint w"
    using take_bit_int_eq_self [of "uint w" 32] uint_lt2p [of w] by simp
  also have "bit (uint w) 31 = bit w 31" by (simp add: bit_uint_iff)
  finally show ?thesis .
qed

lemma cidr_span:
  assumes "1 \<le> p" "p \<le> 32"
  shows "uint (specBroadcast q p) = uint (specNetwork q p) + 2 ^ (32 - p) - 1"
    and "bit (specBroadcast q p) 31 = bit (specNetwork q p) 31"
proof -
  let ?N = "specNetwork q p"
  let ?M = "mask (32 - p) :: 32 word"
  have b: "specBroadcast q p = ?N OR ?M" by (simp add: specBroadcast_def specMask_def)
  have "uint ?N AND uint ?M = 0"
    unfolding uint_and [symmetric] by (simp add: specNetwork_def specMask_def and.assoc)
  then have "uint ?N + uint ?M = uint ?N OR uint ?M" by (rule disjunctive_add_eq_or)
  moreover have "uint ?M = 2 ^ (32 - p) - 1"
  proof -
    have "uint ?M = mask (min LENGTH(32) (32 - p))" by (rule uint_mask_eq)
    also have "min LENGTH(32) (32 - p) = 32 - p" by simp
    finally show ?thesis by (simp only: mask_eq_exp_minus_1)
  qed
  ultimately show "uint (specBroadcast q p) = uint (specNetwork q p) + 2 ^ (32 - p) - 1"
    unfolding b uint_or by simp
  show "bit (specBroadcast q p) 31 = bit (specNetwork q p) 31"
    unfolding b using assms by (auto simp: bit_simps)
qed

lemma cidr_hosts:
  assumes "1 \<le> p" "p \<le> 31"
  shows "max 0 (sint (specBroadcast q p) - sint (specNetwork q p) - 1) = 2 ^ (32 - p) - 2"
proof -
  have "sint (specBroadcast q p) - sint (specNetwork q p) = 2 ^ (32 - p) - 1"
    using cidr_span [of p q] assms by (simp add: sint_msb)
  moreover have "(2::int) ^ 1 \<le> 2 ^ (32 - p)"
    using assms by (intro power_increasing) simp_all
  ultimately show ?thesis by simp
qed

lemma intToIP_cong:
  "(word_of_int i :: 32 word) = word_of_int j \<Longrightarrow> intToIP i = intToIP j"
  by (simp add: intToIP_def js_shr_def js_sar_def js_and_def)

lemma intToIP_sint_plus: "intToIP (sint (w :: 32 word) + k) = intToIP (uint w + k)"
  by (rule intToIP_cong) simp

lemma isDigit_not_slash: "isDigit c \<Longrightarrow> c \<noteq> CHR ''/''"
  by (auto simp: isDigit_def)

lemma trim_clean:
  assumes "s \<noteq> []" "\<not> isSpace (hd s)" "\<not> isSpace (last s)"
  shows "trim s = s"
proof -
  have a: "dropWhile isSpace s = s"
    using assms(1,2) by (cases s) simp_all
  have "rev s \<noteq> []" "\<not> isSpace (hd (rev s))"
    using assms(1,3) by (simp_all add: hd_rev)
  then have "dropWhile isSpace (rev s) = rev s"
    by (cases "rev s") simp_all
  then show ?thesis by (simp add: trim_def a)
qed

lemma last_natToString_digit: "isDigit (last (natToString n))"
  using natToString_digits [of n] natToString_nonempty [of n] last_in_set by blast

lemma cidr_text:
  fixes quad :: string and p :: nat
  assumes "CHR ''/'' \<notin> set quad" "quad \<noteq> []" "\<not> isSpace (hd quad)"
  defines "text \<equiv> quad @ ''/'' @ natToString p"
  shows "trim text = text" and "js_includes text CHR ''/''"
    and "split_on CHR ''/'' text = [quad, natToString p]"
proof -
  have "last text = last (natToString p)"
    using natToString_nonempty [of p] by (simp add: text_def)
  then have "\<not> isSpace (last text)"
    using last_natToString_digit [of p] isDigit_not_space by simp
  moreover have "hd text = hd quad" "text \<noteq> []" using assms(2) by (simp_all add: text_def)
  ultimately show "trim text = text" using assms(3) by (intro trim_clean) simp_all
  show "js_includes text CHR ''/''" by (simp add: js_includes_def text_def)
  have "CHR ''/'' \<notin> set (natToString p)"
    using natToString_digits [of p] isDigit_not_slash by blast
  then show "split_on CHR ''/'' text = [quad, natToString p]"
    unfolding text_def using assms(1) by (simp add: split_on_append split_on_no_sep)
qed

lemma parseIPRange_cidr:
  assumes "1 \<le> p" "p \<le> 31"
    and "CHR ''/'' \<notin> set quad" "quad \<noteq> []" "\<not> isSpace (hd quad)"
  shows "parseIPRange (quad @ ''/'' @ natToString p) =
     Inr \<lparr>startIP = intToIP (uint (specNetwork (ipToInt quad) p) + 1),
          endIP = intToIP (uint (specBroadcast (ipToInt quad) p) - 1),
          cidr = quad @ ''/'' @ natToString p,
          totalHosts = 2 ^ (32 - p) - 2\<rparr>"
proof -
  let ?q = "ipToInt quad"
  note t = cidr_text [OF assms(3-5), of p]
  have pr: "parseInt (natToString p) = Num (int p)" by (rule parseInt_natToString)
  have ok: "\<not> (js_lt (Num (int p)) (Num 0) \<or> js_gt (Num (int p)) (Num 32))"
    using assms(2) by simp
  note w = cidr_words [OF assms(1,2), of ?q]
  have a: "intToIP (sint (specNetwork ?q p) + 1) = intToIP (uint (specNetwork ?q p) + 1)"
    by (rule intToIP_sint_plus)
  have b: "intToIP (sint (specBroadcast ?q p) - 1) = intToIP (uint (specBroadcast ?q p) - 1)"
    using intToIP_sint_plus [of "specBroadcast ?q p" "- 1"] by simp
  note w2 = w(2) [unfolded w(1)]
  have inc: "js_includes (quad @ ''/'' @ natToString p) CHR ''/'' = True"
    using t(2) by simp
  show ?thesis
    unfolding parseIPRange_def Let_def t(1) inc t(3)
    by (simp only: if_True list.case pr ok if_False w(1) w2 a b cidr_hosts [OF assms(1,2)])
qed

lemma intToIP_inj:
  assumes "0 \<le> x" "x < 2 ^ 32" "0 \<le> y" "y < 2 ^ 32" "intToIP x = intToIP y"
  shows "x = y"
proof -
  have "x = ipToInt (intToIP x)" using assms(1,2) by (simp only: ipToInt_intToIP)
  also have "\<dots> = ipToInt (intToIP y)" by (simp only: assms(5))
  also have "\<dots> = y" using assms(3,4) by (simp only: ipToInt_intToIP)
  finally show ?thesis .
qed

lemma generateIPList_cidr:
  fixes q :: int and p :: nat and c :: string
  assumes "1 \<le> p" "p \<le> 31"
  defines "N \<equiv> uint (specNetwork q p)" and "B \<equiv> uint (specBroadcast q p)"
  defines "r \<equiv> \<lparr>startIP = intToIP (N + 1), endIP = intToIP (B - 1), cidr = c,
                   totalHosts = 2 ^ (32 - p) - 2\<rparr>"
  shows "generateIPList r = map intToIP [N + 1..B - 1]"
    and "int (length (generateIPList r)) = totalHosts r"
    and "intToIP N \<notin> set (generateIPList r)"
    and "intToIP B \<notin> set (generateIPList r)"
proof -
  have span: "B = N + 2 ^ (32 - p) - 1"
    unfolding N_def B_def using assms(1,2) by (intro cidr_span) simp_all
  have two: "(2::int) \<le> 2 ^ (32 - p)"
    using power_increasing [of 1 "32 - p" "2::int"] assms(2) by simp
  have N: "0 \<le> N" "N < 2 ^ 32" and B: "0 \<le> B" "B < 2 ^ 32"
    unfolding N_def B_def using uint_lt2p [of "specNetwork q p"] uint_lt2p [of "specBroadcast q p"]
    by simp_all
  have s: "ipToInt (intToIP (N + 1)) = N + 1"
    using N B span two by (intro ipToInt_intToIP) simp_all
  have e: "ipToInt (intToIP (B - 1)) = B - 1"
    using N B span two by (intro ipToInt_intToIP) simp_all
  show g: "generateIPList r = map intToIP [N + 1..B - 1]"
    by (simp add: generateIPList_upto r_def s e)
  show "int (length (generateIPList r)) = totalHosts r"
    unfolding g using span two by (simp add: r_def)
  show "intToIP N \<notin> set (generateIPList r)"
  proof
    assume "intToIP N \<in> set (generateIPList r)"
    then obtain x where x: "N + 1 \<le> x" "x \<le> B - 1" "intToIP N = intToIP x"
      unfolding g by auto
    then have "N = x" using N B by (intro intToIP_inj) simp_all
    with x show False by simp
  qed
  show "intToIP B \<notin> set (generateIPList r)"
  proof
    assume "intToIP B \<in> set (generateIPList r)"
    then obtain x where x: "N + 1 \<le> x" "x \<le> B - 1" "intToIP B = intToIP x"
      unfolding g by auto
    then have "B = x" using N B by (intro intToIP_inj) simp_all
    with x show False by simp
  qed
qed

lemma parseIPRange_examples:
  "parseIPRange ''192.168.1.0/24'' =
     Inr \<lparr>startIP = ''192.168.1.1'', endIP = ''192.168.1.254'',
          cidr = ''192.168.1.0/24'', totalHosts = 254\<rparr>"
  "parseIPRange ''192.168.1.4/31'' =
     Inr \<lparr>startIP = ''192.168.1.5'', endIP = ''192.168.1.4'',
          cidr = ''192.168.1.4/31'', totalHosts = 0\<rparr>"
  by code_simp+

section \<open>Properties of the double-precision rounding\<close>


lemma rne_of_int [simp]: "rne (of_int k) = k"
  by (simp add: rne_def)




declare log2up.simps [simp del] log2down.simps [simp del]












section \<open>Properties of the batch scheduler\<close>

lemma js_slice_chunk:
  assumes "0 \<le> i" "i < int (length xs)" "0 < sz"
  shows "js_slice xs i (i + sz) = take (nat sz) (drop (nat i) xs)"
proof -
  have "take (nat (min (i + sz) (int (length xs)) - i)) (drop (nat i) xs) =
        take (nat sz) (drop (nat i) xs)"
  proof (cases "i + sz \<le> int (length xs)")
    case True
    then show ?thesis by (simp add: min_def)
  next
    case False
    then have "length (drop (nat i) xs) \<le> nat (int (length xs) - i)"
      and "length (drop (nat i) xs) \<le> nat sz"
      using assms by auto
    then show ?thesis using False by (simp add: min_def)
  qed
  then show ?thesis
    using assms by (simp add: js_slice_def Let_def min_def)
qed

lemma chunkLoop_returns:
  assumes "0 < sz" "0 \<le> i"
  shows "\<exists>rest. chunkLoop xs sz i chunks = Some (chunks @ rest) \<and> concat rest = drop (nat i) xs"
  using assms(2)
proof (induction "nat (int (length xs) - i)" arbitrary: i chunks rule: less_induct)
  case less
  show ?case
  proof (cases "i < int (length xs)")
    case False
    then have "chunkLoop xs sz i chunks = Some chunks"
      by (subst chunkLoop.simps) simp
    moreover have "drop (nat i) xs = []" using False less.prems by simp
    ultimately show ?thesis by simp
  next
    case True
    let ?c = "js_slice xs i (i + sz)"
    have step: "chunkLoop xs sz i chunks = chunkLoop xs sz (i + sz) (chunks @ [?c])"
      using True by (subst chunkLoop.simps) simp
    have "nat (int (length xs) - (i + sz)) < nat (int (length xs) - i)"
      using True assms(1) by simp
    moreover have "0 \<le> i + sz" using less.prems assms(1) by simp
    ultimately obtain rest where r: "chunkLoop xs sz (i + sz) (chunks @ [?c]) = Some ((chunks @ [?c]) @ rest)"
      and c: "concat rest = drop (nat (i + sz)) xs"
      using less.hyps by blast
    have sl: "?c = take (nat sz) (drop (nat i) xs)"
      using less.prems True assms(1) by (rule js_slice_chunk)
    have "nat (i + sz) = nat sz + nat i" using less.prems assms(1) by simp
    then have "concat (?c # rest) = drop (nat i) xs"
      unfolding sl using c by (simp add: drop_drop [symmetric] del: drop_drop)
    then show ?thesis
      using step r by (intro exI [of _ "?c # rest"]) simp
  qed
qed

lemma chunkArray_returns:
  "0 < sz \<Longrightarrow> \<exists>chunks. chunkArray xs sz = Some chunks \<and> concat chunks = xs"
  using chunkLoop_returns [of sz 0 xs "[]"] by (simp add: chunkArray_def)

text \<open>With a size that is not positive the loop of \<open>chunkArray\<close> never ends, unless the array is empty.\<close>

lemma chunkLoop_diverges:
  assumes "sz \<le> 0" "i \<le> 0" "xs \<noteq> []"
  shows "chunkLoop xs sz i chunks = None"
proof (rule ccontr)
  assume "chunkLoop xs sz i chunks \<noteq> None"
  then obtain r where r: "chunkLoop xs sz i chunks = Some r" by auto
  have "\<not> (sz \<le> 0 \<and> i \<le> 0 \<and> xs \<noteq> [])"
  proof (rule chunkLoop.raw_induct [where P = "\<lambda>a s j c y. \<not> (s \<le> 0 \<and> j \<le> 0 \<and> a \<noteq> [])", OF _ r])
    fix loop :: "'a list \<Rightarrow> int \<Rightarrow> int \<Rightarrow> 'a list list \<Rightarrow> 'a list list option"
    fix a :: "'a list" and s j :: int and c y :: "'a list list"
    assume ih: "\<And>a s j c y. loop a s j c = Some y \<Longrightarrow> \<not> (s \<le> 0 \<and> j \<le> 0 \<and> a \<noteq> [])"
    assume b: "(if j < int (length a) then loop a s (j + s) (c @ [js_slice a j (j + s)]) else Some c) = Some y"
    show "\<not> (s \<le> 0 \<and> j \<le> 0 \<and> a \<noteq> [])"
    proof
      assume h: "s \<le> 0 \<and> j \<le> 0 \<and> a \<noteq> []"
      then have "j < int (length a)" by (cases a) auto
      with b have "loop a s (j + s) (c @ [js_slice a j (j + s)]) = Some y" by simp
      then have "\<not> (s \<le> 0 \<and> j + s \<le> 0 \<and> a \<noteq> [])" by (rule ih)
      with h show False by simp
    qed
  qed
  with assms show False by simp
qed

lemma chunkArray_diverges: "sz \<le> 0 \<Longrightarrow> xs \<noteq> [] \<Longrightarrow> chunkArray xs sz = None"
  by (simp add: chunkArray_def chunkLoop_diverges)

lemma foldl_settle:
  "foldl (settle n) (c, lg) items =
     (c + length items,
      lg @ map (\<lambda>(j, item). (percentage j n, item)) (enumerate (Suc c) items))"
proof (induction items arbitrary: c lg)
  case Nil
  then show ?case by simp
next
  case (Cons x xs)
  have "foldl (settle n) (c, lg) (x # xs) =
        foldl (settle n) (Suc c, lg @ [(percentage (Suc c) n, x)]) xs"
    by (simp add: settle_def)
  also have "\<dots> = (Suc c + length xs,
      (lg @ [(percentage (Suc c) n, x)]) @
        map (\<lambda>(j, item). (percentage j n, item)) (enumerate (Suc (Suc c)) xs))"
    by (rule Cons.IH)
  finally show ?case by simp
qed

lemma mset_settled: "mset (map snd (sort_key f (enumerate n xs))) = mset xs"
proof -
  have "mset (map snd (sort_key f (enumerate n xs))) = mset (map snd (enumerate n xs))"
    by (simp only: mset_map mset_sort)
  then show ?thesis by (simp only: map_snd_enumerate)
qed

lemma map_fst_calls:
  "map fst (map (\<lambda>(j, item). (percentage j n, item)) (enumerate c items)) =
   map (\<lambda>j. percentage j n) [c..<c + length items]"
proof (induction items arbitrary: c)
  case Nil
  then show ?case by simp
next
  case (Cons x xs)
  have "[c..<c + length (x # xs)] = c # [Suc c..<Suc c + length xs]"
    by (subst upt_rec) simp
  then show ?case using Cons.IH [of "Suc c"] by simp
qed

lemma map_snd_calls:
  "map snd (map (\<lambda>(j, item). (percentage j n, item)) (enumerate c items)) = items"
proof (induction items arbitrary: c)
  case Nil
  then show ?case by simp
next
  case (Cons x xs)
  then show ?case using Cons.IH [of "Suc c"] by simp
qed

text \<open>What one batch does to the state of the scan.\<close>

lemma runChunk_state:
  fixes st :: "('a, 'r) scanState" and probe :: "nat \<Rightarrow> 'a \<Rightarrow> 'r" and finish n chunk
  defines "st' \<equiv> runChunk probe finish n st chunk"
  shows "results st' = results st @ map (\<lambda>(k, item). probe k item) (enumerate (started st) chunk)"
    and "started st' = started st + length chunk"
    and "completed st' = completed st + length chunk"
    and "map fst (calls st') = map fst (calls st) @
           map (\<lambda>j. percentage j n) [Suc (completed st)..<Suc (completed st) + length chunk]"
    and "mset (map snd (calls st')) = mset (map snd (calls st)) + mset chunk"
proof -
  let ?settled = "map snd (sort_key (\<lambda>(k, item). finish k) (enumerate (started st) chunk))"
  have len: "length ?settled = length chunk" by simp
  have p: "foldl (settle n) (completed st, calls st) ?settled =
      (completed st + length chunk,
       calls st @ map (\<lambda>(j, item). (percentage j n, item)) (enumerate (Suc (completed st)) ?settled))"
    unfolding foldl_settle len ..
  show "results st' = results st @ map (\<lambda>(k, item). probe k item) (enumerate (started st) chunk)"
    and "started st' = started st + length chunk"
    by (simp_all add: st'_def runChunk_def Let_def)
  show "completed st' = completed st + length chunk"
    unfolding st'_def runChunk_def Let_def p by simp
  have c: "calls st' = calls st @
      map (\<lambda>(j, item). (percentage j n, item)) (enumerate (Suc (completed st)) ?settled)"
    unfolding st'_def runChunk_def Let_def p by simp
  show "map fst (calls st') = map fst (calls st) @
           map (\<lambda>j. percentage j n) [Suc (completed st)..<Suc (completed st) + length chunk]"
    unfolding c map_append map_fst_calls len ..
  show "mset (map snd (calls st')) = mset (map snd (calls st)) + mset chunk"
    unfolding c map_append map_snd_calls mset_append mset_settled ..
qed

lemma enumerate_append:
  "enumerate n (xs @ ys) = enumerate n xs @ enumerate (n + length xs) ys"
  by (induction xs arbitrary: n) simp_all

lemma runChunk_calls_inv:
  fixes st :: "('a, 'r) scanState" and probe :: "nat \<Rightarrow> 'a \<Rightarrow> 'r"
  assumes "map fst (calls st) = map (\<lambda>j. percentage j n) [1..<Suc (completed st)]"
  shows "map fst (calls (runChunk probe finish n st chunk)) =
         map (\<lambda>j. percentage j n) [1..<Suc (completed (runChunk probe finish n st chunk))]"
proof -
  have "[1..<Suc (completed st) + length chunk] =
        [1..<Suc (completed st)] @ [Suc (completed st)..<Suc (completed st) + length chunk]"
    by (rule upt_add_eq_append) simp
  then have "map (\<lambda>j. percentage j n) [1..<Suc (completed st + length chunk)] =
        map (\<lambda>j. percentage j n) [1..<Suc (completed st)] @
        map (\<lambda>j. percentage j n) [Suc (completed st)..<Suc (completed st) + length chunk]"
    by (simp only: map_append add_Suc)
  then show ?thesis
    unfolding runChunk_state(3,4) assms by (rule sym)
qed

lemma foldl_runChunk_calls_inv:
  fixes st :: "('a, 'r) scanState" and probe :: "nat \<Rightarrow> 'a \<Rightarrow> 'r"
  assumes "map fst (calls st) = map (\<lambda>j. percentage j n) [1..<Suc (completed st)]"
  shows "map fst (calls (foldl (runChunk probe finish n) st chunks)) =
         map (\<lambda>j. percentage j n) [1..<Suc (completed (foldl (runChunk probe finish n) st chunks))]"
  using assms
proof (induction chunks arbitrary: st)
  case Nil
  then show ?case by simp
next
  case (Cons ch chunks)
  have "map fst (calls (runChunk probe finish n st ch)) =
        map (\<lambda>j. percentage j n) [1..<Suc (completed (runChunk probe finish n st ch))]"
    using Cons.prems by (rule runChunk_calls_inv)
  then show ?case
    unfolding foldl_Cons by (rule Cons.IH)
qed

lemma foldl_runChunk:
  fixes st :: "('a, 'r) scanState" and probe :: "nat \<Rightarrow> 'a \<Rightarrow> 'r"
  shows "results (foldl (runChunk probe finish n) st chunks) =
           results st @ map (\<lambda>(k, item). probe k item) (enumerate (started st) (concat chunks))
       \<and> started (foldl (runChunk probe finish n) st chunks) = started st + length (concat chunks)
       \<and> completed (foldl (runChunk probe finish n) st chunks) = completed st + length (concat chunks)
       \<and> mset (map snd (calls (foldl (runChunk probe finish n) st chunks))) =
           mset (map snd (calls st)) + mset (concat chunks)"
proof (induction chunks arbitrary: st)
  case Nil
  then show ?case by simp
next
  case (Cons ch chunks)
  show ?case
    unfolding foldl_Cons
    using Cons.IH [of "runChunk probe finish n st ch"]
      runChunk_state(5) [of probe finish n st ch]
    by (simp add: runChunk_state(1-3) enumerate_append add.assoc)
qed

lemma runChunks_state:
  fixes probe :: "nat \<Rightarrow> 'a \<Rightarrow> 'r"
  shows "results (runChunks probe finish n chunks) =
           map (\<lambda>(k, item). probe k item) (enumerate 0 (concat chunks))"
    and "completed (runChunks probe finish n chunks) = length (concat chunks)"
    and "map fst (calls (runChunks probe finish n chunks)) =
           map (\<lambda>j. percentage j n) [1..<Suc (length (concat chunks))]"
    and "mset (map snd (calls (runChunks probe finish n chunks))) = mset (concat chunks)"
proof -
  let ?st0 = "\<lparr>results = [], completed = 0, calls = [], started = 0\<rparr> :: ('a, 'r) scanState"
  note f = foldl_runChunk [of probe finish n ?st0 chunks]
  show "results (runChunks probe finish n chunks) =
           map (\<lambda>(k, item). probe k item) (enumerate 0 (concat chunks))"
    and c: "completed (runChunks probe finish n chunks) = length (concat chunks)"
    and "mset (map snd (calls (runChunks probe finish n chunks))) = mset (concat chunks)"
    using f by (simp_all add: runChunks_def)
  have "map fst (calls ?st0) = map (\<lambda>j. percentage j n) [1..<Suc (completed ?st0)]"
    by simp
  from foldl_runChunk_calls_inv [OF this, of probe finish chunks]
  show "map fst (calls (runChunks probe finish n chunks)) =
           map (\<lambda>j. percentage j n) [1..<Suc (length (concat chunks))]"
    unfolding runChunks_def [symmetric] c .
qed




lemma ip_pingHost [simp]: "ip (pingHost host timeout w run) = host"
  by (cases "execOutcome run") (simp_all add: pingHost_def pingTry_def Let_def)


lemma map_ip_probes:
  "map ip (map (\<lambda>(k, h). pingHost h timeout w (os k)) (enumerate n targets)) = targets"
proof -
  have "map ip (map (\<lambda>(k, h). pingHost h timeout w (os k)) (enumerate n targets)) =
        map snd (enumerate n targets)"
    by (simp only: map_map o_def case_prod_unfold ip_pingHost)
  then show ?thesis by (simp only: map_snd_enumerate)
qed


lemma discoverNetwork_returns:
  assumes "0 < concurrency"
  shows "\<exists>calls. discoverNetwork targets timeout concurrency w os finish =
           Some (map (\<lambda>(k, h). pingHost h timeout w (os k)) (enumerate 0 targets), calls)
         \<and> map fst calls = map (\<lambda>j. percentage j (length targets)) [1..<Suc (length targets)]
         \<and> mset (map snd calls) = mset targets"
proof -
  obtain chunks where c: "chunkArray targets concurrency = Some chunks" and cc: "concat chunks = targets"
    using chunkArray_returns [OF assms] by blast
  show ?thesis
    unfolding discoverNetwork_def c
    using runChunks_state [of "\<lambda>k h. pingHost h timeout w (os k)" finish "length targets" chunks]
    by (simp add: Let_def cc)
qed


section \<open>Port specifications\<close>






section \<open>Address ranges\<close>

text \<open>
  Claim C1 says that a \<open>/32\<close> prefix yields no usable host: network and broadcast
  address coincide and \<open>max(0, (broadcast - network) - 1)\<close> is 0. In \<open>parseIPRange\<close>
  the broadcast address is \<open>startIP | (0xffffffff >>> prefix)\<close>, and a shift by 32 is a
  shift by 0: for \<open>192.168.1.5/32\<close> the range runs from 192.168.1.6 to 255.255.255.254
  and \<open>totalHosts\<close> is 1062731513.
\<close>

theorem parseIPRange_slash32:
  "parseIPRange ''192.168.1.5/32'' =
     Inr \<lparr>startIP = ''192.168.1.6'', endIP = ''255.255.255.254'',
          cidr = ''192.168.1.5/32'', totalHosts = 1062731513\<rparr>
   \<and> max 0 (uint (specBroadcast (ipToInt ''192.168.1.5'') 32)
             - uint (specNetwork (ipToInt ''192.168.1.5'') 32) - 1) = 0"
  by code_simp

text \<open>
  Claim C3 says that \<open>parseIPRange\<close> fails on every text that is not a dotted quad, a
  quad with a prefix, or two quads with a dash. The CIDR branch never tests the network
  part (\<open>IPUtils.getCIDRRange\<close> does, with \<open>isValidIP\<close>) and the dash branch never
  tests its two ends: \<open>abc/24\<close> is accepted and read as the network 0.0.0.0/24, and
  \<open>foo-bar\<close> is accepted as a range of one host.
\<close>

theorem parseIPRange_accepts_malformed:
  "\<not> isValidIP ''abc''
   \<and> parseIPRange ''abc/24'' =
       Inr \<lparr>startIP = ''0.0.0.1'', endIP = ''0.0.0.254'', cidr = ''abc/24'', totalHosts = 254\<rparr>
   \<and> parseIPRange ''foo-bar'' =
       Inr \<lparr>startIP = ''foo'', endIP = ''bar'', cidr = ''foo-bar'', totalHosts = 1\<rparr>"
  by code_simp

text \<open>
  Claim C4 says that the enumeration of a CIDR range has exactly \<open>totalHosts\<close>
  addresses. For \<open>0.0.0.0/0\<close> the mask \<open>0xffffffff << 32\<close> is all ones instead of zero and
  the broadcast address is read as \<open>-1\<close>: \<open>totalHosts\<close> is 0 while \<open>generateIPList\<close>
  returns the 4294967294 addresses from 0.0.0.1 to 255.255.255.254.
\<close>

theorem generateIPList_slash0:
  "parseIPRange ''0.0.0.0/0'' =
     Inr \<lparr>startIP = ''0.0.0.1'', endIP = ''255.255.255.254'', cidr = ''0.0.0.0/0'', totalHosts = 0\<rparr>
   \<and> length (generateIPList \<lparr>startIP = ''0.0.0.1'', endIP = ''255.255.255.254'',
                               cidr = ''0.0.0.0/0'', totalHosts = 0\<rparr>) = 4294967294"
proof
  show "parseIPRange ''0.0.0.0/0'' =
     Inr \<lparr>startIP = ''0.0.0.1'', endIP = ''255.255.255.254'', cidr = ''0.0.0.0/0'', totalHosts = 0\<rparr>"
    by code_simp
  have "ipToInt ''0.0.0.1'' = 1" "ipToInt ''255.255.255.254'' = 4294967294"
    by code_simp+
  then show "length (generateIPList \<lparr>startIP = ''0.0.0.1'', endIP = ''255.255.255.254'',
                               cidr = ''0.0.0.0/0'', totalHosts = 0\<rparr>) = 4294967294"
    by (simp add: length_generateIPList)
qed

text \<open>
  Claim C9. \<open>ipToInt\<close> and \<open>intToIP\<close> are inverse to each other: for every integer
  \<open>n\<close> with \<open>0 \<le> n < 2^32\<close>, \<open>ipToInt (intToIP n) = n\<close>, and for every canonical
  dotted quad \<open>s\<close> (four decimal octets of at most 255, without leading zeros),
  \<open>intToIP (ipToInt s) = s\<close>.
\<close>

theorem ip_conversions_roundtrip:
  "(0 \<le> n \<and> n < 2 ^ 32 \<longrightarrow> ipToInt (intToIP n) = n)
   \<and> (canonicalQuad s \<longrightarrow> intToIP (ipToInt s) = s)"
  using ipToInt_intToIP intToIP_ipToInt by blast

text \<open>The round trip at the address 192.168.1.1, which is the integer 3232235777.\<close>

theorem ip_conversions_roundtrip_witness:
  "(0::int) \<le> 3232235777 \<and> (3232235777::int) < 2 ^ 32
   \<and> ipToInt (intToIP 3232235777) = 3232235777
   \<and> canonicalQuad ''192.168.1.1''
   \<and> intToIP (ipToInt ''192.168.1.1'') = ''192.168.1.1''"
proof -
  have h1: "(0::int) \<le> 3232235777 \<and> (3232235777::int) < 2 ^ 32" by simp
  have h2: "canonicalQuad ''192.168.1.1''" by code_simp
  from ip_conversions_roundtrip [of 3232235777 "''192.168.1.1''"] h1 h2
  show ?thesis by blast
qed

section \<open>Scans\<close>



text \<open>
  Claim C10. With a positive concurrency, \<open>discoverNetwork\<close> returns its records in the
  order of the input: the \<open>i\<close>-th record is what the probe of the \<open>i\<close>-th address
  answered, whatever the order in which the probes settle.
\<close>

theorem discoverNetwork_input_order:
  "0 < concurrency \<longrightarrow>
     (\<exists>ts calls. discoverNetwork targets timeout concurrency isWindows os finish = Some (ts, calls)
        \<and> ts = map (\<lambda>(k, host). pingHost host timeout isWindows (os k)) (enumerate 0 targets)
        \<and> map ip ts = targets
        \<and> (\<forall>i < length targets. ts ! i = pingHost (targets ! i) timeout isWindows (os i)))"
proof
  assume c: "0 < concurrency"
  let ?ts = "map (\<lambda>(k, h). pingHost h timeout isWindows (os k)) (enumerate 0 targets)"
  obtain calls where d: "discoverNetwork targets timeout concurrency isWindows os finish = Some (?ts, calls)"
    using discoverNetwork_returns [OF c] by blast
  have "map ip ?ts = targets" by (rule map_ip_probes)
  moreover have "\<forall>i < length targets. ?ts ! i = pingHost (targets ! i) timeout isWindows (os i)"
    by (simp add: nth_enumerate_eq)
  ultimately show "\<exists>ts calls. discoverNetwork targets timeout concurrency isWindows os finish = Some (ts, calls)
        \<and> ts = map (\<lambda>(k, host). pingHost host timeout isWindows (os k)) (enumerate 0 targets)
        \<and> map ip ts = targets
        \<and> (\<forall>i < length targets. ts ! i = pingHost (targets ! i) timeout isWindows (os i))"
    using d by blast
qed

text \<open>A discovery of three addresses in batches of two, the probes settling in reverse order.\<close>

theorem discoverNetwork_input_order_witness:
  "(0::int) < 2
   \<and> (\<exists>calls. discoverNetwork [''10.0.0.3'', ''10.0.0.1'', ''10.0.0.2''] 3000 2 False
          (\<lambda>k. \<lparr>execStart = 0, execOutcome = (if k = 1 then Resolved ''1 received'' else Rejected),
                  execEnd = 4, newDate = 6\<rparr>)
          (\<lambda>k. 5 - k) =
        Some ([\<lparr>ip = ''10.0.0.3'', isActive = False, ScanTarget.responseTime = None, lastSeen = None\<rparr>,
               \<lparr>ip = ''10.0.0.1'', isActive = True, ScanTarget.responseTime = Some 4, lastSeen = Some 6\<rparr>,
               \<lparr>ip = ''10.0.0.2'', isActive = False, ScanTarget.responseTime = None, lastSeen = None\<rparr>],
              calls))"
proof -
  have h: "(0::int) < 2" by simp
  have e: "enumerate 0 [''10.0.0.3'', ''10.0.0.1'', ''10.0.0.2''] =
           [(0, ''10.0.0.3''), (1, ''10.0.0.1''), (2, ''10.0.0.2'')]" by code_simp
  from discoverNetwork_input_order [of 2 "[''10.0.0.3'', ''10.0.0.1'', ''10.0.0.2'']" 3000 False
      "\<lambda>k. \<lparr>execStart = 0, execOutcome = (if k = 1 then Resolved ''1 received'' else Rejected),
                  execEnd = 4, newDate = 6\<rparr>" "\<lambda>k. 5 - k", rule_format, OF h]
  show ?thesis
    by (auto simp: e pingHost_def pingTry_def Let_def)
qed





end
